theory Spec2Isabelle
  imports Main "HOL-Library.Word"
begin

unbundle bit_operations_syntax

section \<open>Data model of package bertlv\<close>

text \<open>
  The embedding follows the first implementation in \<^verbatim>\<open>bertlv.go\<close>.
  A Go byte is an 8-bit word. A Go slice is modelled by the list of its elements;
  a nil slice and an empty slice are the same list (they agree under \<^verbatim>\<open>len\<close>,
  \<^verbatim>\<open>range\<close>, \<^verbatim>\<open>append\<close> and slicing, which is all the package uses).
  Values of Go type \<^verbatim>\<open>int\<close> that come from \<^verbatim>\<open>len\<close>, from an index or from
  an unsigned byte are natural numbers; where the source subtracts, the arithmetic
  is written in \<open>int\<close>.
\<close>

type_synonym byte = "8 word"

type_synonym BerTag = "byte list"

datatype BerTLV = BerTLV (Tag: BerTag) (Value: "byte list") (children: "BerTLV list")

type_synonym BerTLVs = "BerTLV list"

text \<open>
  The errors of the package are strings built with \<^verbatim>\<open>errors.New\<close>,
  \<^verbatim>\<open>errors.Errorf\<close> and \<^verbatim>\<open>errors.Wrap\<close>. Each message of the source is one
  constructor; a wrapping message carries the data it formats and the wrapped cause.
\<close>

datatype err =
    TLVHasLengthZero
  | InvalidTLVStartingAtIndex nat err
  | InvalidTagAtStart "byte list" err
  | InvalidLengthEncoding BerTag err
  | ValueOutOfBounds BerTag int int
  | InvalidChildObject BerTag err
  | TagFollowingBytesMissing
  | TagThreeBytesMissing
  | MissingLength
  | LengthTwoBytesMissing
  | LengthThreeBytesMissing
  | LengthFirstByteMustIndicate
  | InvalidContent BerTag err

text \<open>
  A call returns a result, returns an error, or stops with a run-time panic
  (an index out of range).
\<close>

datatype 'a result = Ok 'a | Err err | Panic

section \<open>Tag codec\<close>

definition NewOneByteTag :: "byte \<Rightarrow> BerTag" where
  "NewOneByteTag b = [b]"

definition NewTwoByteTag :: "byte \<Rightarrow> byte \<Rightarrow> BerTag" where
  "NewTwoByteTag fb sb = [fb, sb]"

definition NewThreeByteTag :: "byte \<Rightarrow> byte \<Rightarrow> byte \<Rightarrow> BerTag" where
  "NewThreeByteTag fb sb tb = [fb, sb, tb]"

text \<open>\<^verbatim>\<open>parseTag\<close> reads \<^verbatim>\<open>b[0]\<close> without a guard: on an empty slice it panics.\<close>

definition parseTag :: "byte list \<Rightarrow> BerTag result" where
  "parseTag b =
     (if length b = 0 then Panic
      else if (b ! 0) AND 0x1F \<noteq> 0x1F then Ok (NewOneByteTag (b ! 0))
      else if length b < 2 then Err TagFollowingBytesMissing
      else if (b ! 1) AND 0x80 \<noteq> 0x80 then Ok (NewTwoByteTag (b ! 0) (b ! 1))
      else if length b < 3 then Err TagThreeBytesMissing
      else Ok (NewThreeByteTag (b ! 0) (b ! 1) (b ! 2)))"

definition IsConstructed :: "BerTag \<Rightarrow> bool" where
  "IsConstructed t = (if length t = 0 then False else (t ! 0) AND 0x20 \<noteq> 0)"

section \<open>Length codec\<close>

text \<open>
  \<^verbatim>\<open>binary.BigEndian.Uint16\<close> of the Go standard library:
  \<^verbatim>\<open>uint16(b[1]) | uint16(b[0])<<8\<close>.
\<close>

definition BigEndian_Uint16 :: "byte list \<Rightarrow> 16 word" where
  "BigEndian_Uint16 b = (ucast (b ! 1) :: 16 word) OR push_bit 8 (ucast (b ! 0) :: 16 word)"

definition parseLength :: "byte list \<Rightarrow> (nat \<times> nat) result" where
  "parseLength b =
     (if length b = 0 then Err MissingLength
      else if b ! 0 \<le> 0x7F then Ok (unat (b ! 0), 1)
      else if b ! 0 = 0x81 then
        (if int (length b) - 1 \<le> 0 then Err LengthTwoBytesMissing
         else Ok (unat (b ! 1), 2))
      else if b ! 0 = 0x82 then
        (if int (length b) - 2 \<le> 0 then Err LengthThreeBytesMissing
         else Ok (unat (BigEndian_Uint16 (take (3 - 1) (drop 1 b))), 3))
      else Err LengthFirstByteMustIndicate)"

text \<open>
  \<^verbatim>\<open>buildLen\<close> takes a Go \<^verbatim>\<open>int\<close>; \<^verbatim>\<open>byte(l)\<close> keeps the low eight bits
  and \<^verbatim>\<open>l>>8\<close> is the arithmetic shift.
\<close>

definition buildLen :: "int \<Rightarrow> byte list" where
  "buildLen l =
     (if l = 0 then [0x00]
      else if l \<le> 127 then [word_of_int l]
      else if l \<le> 255 then [0x81, word_of_int l]
      else [0x82, word_of_int (drop_bit 8 l) AND 0xFF, word_of_int (l AND 0xFF)])"

section \<open>Recursive decoder\<close>

text \<open>
  \<^verbatim>\<open>parseFirstBerTLV\<close> and the loop over the children of a constructed object
  (\<open>parseChildren\<close>: the state of the loop is the tag, the value, \<^verbatim>\<open>valueIndex\<close>
  and the children appended so far).
\<close>

function parseFirstBerTLV :: "byte list \<Rightarrow> (BerTLV \<times> nat) result"
  and parseChildren :: "BerTag \<Rightarrow> byte list \<Rightarrow> nat \<Rightarrow> BerTLV list \<Rightarrow> (BerTLV list) result"
where
  "parseFirstBerTLV b =
     (case parseTag b of
        Panic \<Rightarrow> Panic
      | Err e \<Rightarrow> Err (InvalidTagAtStart b e)
      | Ok tag \<Rightarrow>
          (let leftIndex = length tag in
           case parseLength (drop leftIndex b) of
             Panic \<Rightarrow> Panic
           | Err e \<Rightarrow> Err (InvalidLengthEncoding tag e)
           | Ok (len, lLen) \<Rightarrow>
               (let leftIndex = leftIndex + lLen;
                    indicatedEndIndex = int leftIndex + int len - 1;
                    endIndex = int (length b) - 1
                in if indicatedEndIndex > endIndex
                   then Err (ValueOutOfBounds tag indicatedEndIndex endIndex)
                   else
                     (let val = take len (drop leftIndex b)
                      in if length val = 0 then Ok (BerTLV tag [] [], leftIndex)
                         else
                           (let leftIndex = leftIndex + len
                            in if IsConstructed tag
                               then (case parseChildren tag val 0 [] of
                                       Panic \<Rightarrow> Panic
                                     | Err e \<Rightarrow> Err e
                                     | Ok cs \<Rightarrow> Ok (BerTLV tag val cs, leftIndex))
                               else Ok (BerTLV tag val [], leftIndex))))))"
| "parseChildren tag val valueIndex cs =
     (if valueIndex < length val
      then (case parseFirstBerTLV (drop valueIndex val) of
              Panic \<Rightarrow> Panic
            | Err e \<Rightarrow> Err (InvalidChildObject tag e)
            | Ok (child, lenParsed) \<Rightarrow>
                parseChildren tag val (valueIndex + lenParsed) (cs @ [child]))
      else Ok cs)"
  by pat_completeness auto

text \<open>
  Termination: a successful \<^verbatim>\<open>parseTag\<close> returns at least one byte, so every
  successful \<^verbatim>\<open>parseFirstBerTLV\<close> consumes at least one byte and the value of a
  TLV is shorter than the TLV.
\<close>

lemma parseTag_Ok:
  assumes "parseTag b = Ok t"
  shows "1 \<le> length t" and "length t \<le> 3" and "length t \<le> length b"
    and "t = take (length t) b"
  using assms
  by (auto simp: parseTag_def NewOneByteTag_def NewTwoByteTag_def NewThreeByteTag_def
      take_Suc_conv_app_nth numeral_3_eq_3 numeral_2_eq_2 hd_conv_nth take_Suc Suc_le_eq
      split: if_splits)

lemma unat_Uint16_le: "unat (BigEndian_Uint16 b) \<le> 65535"
proof -
  have "unat (BigEndian_Uint16 b) < 2 ^ LENGTH(16)" by (rule unsigned_less)
  then show ?thesis by simp
qed

lemma unat_byte_le: "unat (x :: byte) \<le> 255"
proof -
  have "unat x < 2 ^ LENGTH(8)" by (rule unsigned_less)
  then show ?thesis by simp
qed

lemma parseLength_Ok:
  assumes "parseLength r = Ok (l, n)"
  shows "1 \<le> n" and "n \<le> 3" and "n \<le> length r" and "l \<le> 65535"
proof -
  show "1 \<le> n" "n \<le> 3" "n \<le> length r"
    using assms by (auto simp: parseLength_def Suc_le_eq split: if_splits)
  show "l \<le> 65535"
    using assms unat_Uint16_le [of "take (3 - 1) (drop 1 r)"]
      unat_byte_le [of "r ! 0"] unat_byte_le [of "r ! 1"]
    by (auto simp: parseLength_def split: if_splits)
qed

lemma parseFirstBerTLV_dom_pos:
  assumes "parseFirstBerTLV_parseChildren_dom (Inl b)" and "parseFirstBerTLV b = Ok (t, n)"
  shows "0 < n"
  using assms(2)
  by (auto simp: parseFirstBerTLV.psimps [OF assms(1)] Let_def dest: parseTag_Ok(1)
      split: result.splits if_splits prod.splits)

termination parseFirstBerTLV
  apply (relation "inv_image (less_than <*lex*> less_than)
    (\<lambda>x. case x of Inl b \<Rightarrow> (length b, 0::nat)
                 | Inr (tag, val, vi, cs) \<Rightarrow> (length val, Suc (length val - vi)))")
  subgoal by (intro wf_inv_image wf_lex_prod wf_less_than)
  subgoal for b x1 x x1a xa y xb xc xd xe xf
    using parseTag_Ok(1) [of b x1] by auto
  subgoal for tag val valueIndex cs
    by (cases valueIndex) auto
  subgoal for tag val valueIndex cs x1 x y
    using parseFirstBerTLV_dom_pos [of "drop valueIndex val" x y] by auto
  done

declare parseFirstBerTLV.simps [simp del]
declare parseChildren.simps [simp del]

lemma parseFirstBerTLV_pos:
  assumes "parseFirstBerTLV b = Ok (t, n)"
  shows "0 < n"
  using assms
  by (auto simp: parseFirstBerTLV.simps [of b] Let_def dest: parseTag_Ok(1)
      split: result.splits if_splits prod.splits)

text \<open>
  \<^verbatim>\<open>Parse\<close>: the loop over \<^verbatim>\<open>index\<close> (\<open>Parse_loop\<close>; its state is the input,
  the index and the result appended so far).
\<close>

function Parse_loop :: "byte list \<Rightarrow> nat \<Rightarrow> BerTLV list \<Rightarrow> BerTLVs result" where
  "Parse_loop b index res =
     (if index < length b
      then (case parseFirstBerTLV (drop index b) of
              Panic \<Rightarrow> Panic
            | Err e \<Rightarrow> Err (InvalidTLVStartingAtIndex index e)
            | Ok (tlvs, lenParsed) \<Rightarrow> Parse_loop b (index + lenParsed) (res @ [tlvs]))
      else Ok res)"
  by pat_completeness auto
termination
  apply (relation "measure (\<lambda>(b, index, res). length b - index)")
  subgoal by simp
  subgoal for b index res x1 x y
    using parseFirstBerTLV_pos [of "drop index b" x y] by auto
  done

declare Parse_loop.simps [simp del]

definition Parse :: "byte list \<Rightarrow> BerTLVs result" where
  "Parse b = (if length b = 0 then Err TLVHasLengthZero else Parse_loop b 0 [])"

text \<open>\<^verbatim>\<open>NewBerTLV\<close> and its loop over \<^verbatim>\<open>index\<close>.\<close>

function NewBerTLV_loop :: "BerTag \<Rightarrow> byte list \<Rightarrow> nat \<Rightarrow> BerTLV list \<Rightarrow> (BerTLV list) result"
where
  "NewBerTLV_loop tag val index cs =
     (if index < length val
      then (case parseFirstBerTLV (drop index val) of
              Panic \<Rightarrow> Panic
            | Err e \<Rightarrow> Err (InvalidContent tag e)
            | Ok (tlv, lenParsed) \<Rightarrow> NewBerTLV_loop tag val (index + lenParsed) (cs @ [tlv]))
      else Ok cs)"
  by pat_completeness auto
termination
  apply (relation "measure (\<lambda>(tag, val, index, cs). length val - index)")
  subgoal by simp
  subgoal for tag val index cs x1 x y
    using parseFirstBerTLV_pos [of "drop index val" x y] by auto
  done

declare NewBerTLV_loop.simps [simp del]

definition NewBerTLV :: "BerTag \<Rightarrow> byte list \<Rightarrow> BerTLV result" where
  "NewBerTLV tag val =
     (if \<not> IsConstructed tag then Ok (BerTLV tag val [])
      else (case NewBerTLV_loop tag val 0 [] of
              Panic \<Rightarrow> Panic
            | Err e \<Rightarrow> Err e
            | Ok cs \<Rightarrow> Ok (BerTLV tag val cs)))"

section \<open>Encoder\<close>

text \<open>
  \<^verbatim>\<open>Bytes\<close> has a value receiver: it truncates its own copy of the node and returns
  the tag, the length and the value appended to one slice. \<^verbatim>\<open>BerTLVs.Bytes\<close>
  (\<open>BerTLVs_Bytes\<close>) appends the encoding of each node in order.
\<close>

definition Bytes :: "BerTLV \<Rightarrow> byte list" where
  "Bytes ber =
     (let valueLen = length (Value ber);
          (val, valueLen) =
            (if valueLen > 65535 then (take 65535 (Value ber), 65535)
             else (Value ber, valueLen));
          len = buildLen (int valueLen);
          tagLen = length (Tag ber);
          tag = (if tagLen > 0 \<and> tagLen \<le> 3 then Tag ber
                 else if tagLen = 0 then [0x00]
                 else take 3 (Tag ber))
      in tag @ len @ val)"

definition BytesLength :: "BerTLV \<Rightarrow> nat" where
  "BytesLength ber =
     (let lVal = length (Value ber);
          lVal = (if lVal > 65535 then 65535 else lVal)
      in length (Tag ber) + length (buildLen (int lVal)) + lVal)"

definition BerTLVs_Bytes :: "BerTLVs \<Rightarrow> byte list" where
  "BerTLVs_Bytes t = foldl (\<lambda>b tlv. b @ Bytes tlv) [] t"

section \<open>Builder\<close>

text \<open>
  The methods of \<^verbatim>\<open>Builder\<close> work on a copy of the builder and return it; the model
  passes the builder through. \<^verbatim>\<open>prependLengthBytes\<close> overwrites the slice it points
  to; the model returns the new slice.
\<close>

record Builder =
  bytes :: "byte list"

definition prependLengthBytes :: "byte list \<Rightarrow> byte list" where
  "prependLengthBytes b = buildLen (int (length b)) @ b"

definition AddBytes :: "Builder \<Rightarrow> BerTag \<Rightarrow> byte list \<Rightarrow> Builder" where
  "AddBytes bu tag v =
     (let bu = bu\<lparr>bytes := bytes bu @ tag\<rparr>
      in if length v = 0 then bu\<lparr>bytes := bytes bu @ [0x00]\<rparr>
         else
           (let v = (if length v > 65535 then take 65535 v else v);
                v = prependLengthBytes v
            in bu\<lparr>bytes := bytes bu @ v\<rparr>))"

definition BuildBerTLVs :: "Builder \<Rightarrow> BerTLVs result" where
  "BuildBerTLVs bu = Parse (bytes bu)"

section \<open>Nodes that the encoder does not truncate\<close>

text \<open>
  \<^verbatim>\<open>Bytes\<close> leaves a node as it is when its tag has one to three bytes and its value
  at most 65535 bytes. \<open>untruncated\<close> says so of a node and of all nodes below it.
\<close>

fun untruncated :: "BerTLV \<Rightarrow> bool" where
  "untruncated (BerTLV tag v cs) =
     (1 \<le> length tag \<and> length tag \<le> 3 \<and> length v \<le> 65535 \<and> list_all untruncated cs)"

section \<open>Facts about bytes and 16-bit words\<close>

lemma Uint16_pair: "unat (BigEndian_Uint16 [h, l]) = unat h * 256 + unat l"
proof -
  have disj: "\<And>n. \<not> bit (ucast l :: 16 word) n \<or> \<not> bit (push_bit 8 (ucast h :: 16 word)) n"
    by (auto simp: bit_simps dest: bit_imp_le_length)
  have or_add: "(ucast l :: 16 word) OR push_bit 8 (ucast h :: 16 word) = ucast l + push_bit 8 (ucast h)"
    using disjunctive_add [of "ucast l :: 16 word" "push_bit 8 (ucast h :: 16 word)"] disj by simp
  have hb: "unat h \<le> 255" by (rule unat_byte_le)
  have lb: "unat l \<le> 255" by (rule unat_byte_le)
  have ul: "unat (ucast l :: 16 word) = unat l"
    using lb by (simp add: unsigned_ucast_eq take_bit_nat_eq_self)
  have uh: "unat (ucast h :: 16 word) = unat h"
    using hb by (simp add: unsigned_ucast_eq take_bit_nat_eq_self)
  have ph: "unat (push_bit 8 (ucast h :: 16 word)) = unat h * 256"
    using hb by (simp add: push_bit_eq_mult unat_word_ariths uh)
  have "unat ((ucast l :: 16 word) + push_bit 8 (ucast h :: 16 word)) = unat h * 256 + unat l"
    using hb lb by (simp add: unat_word_ariths ul ph)
  then show ?thesis
    by (simp add: BigEndian_Uint16_def or_add)
qed

lemma uint_byte_of_int: "0 \<le> n \<Longrightarrow> n \<le> 255 \<Longrightarrow> uint (word_of_int n :: byte) = n"
  by (simp add: uint_word_of_int)

lemma byte_and_FF: "(x :: byte) AND 0xFF = x"
proof -
  have "(0xFF :: byte) = - 1" by simp
  then show ?thesis by (simp only: and.right_neutral word_bw_comms word_and_max)
qed

lemma int_and_FF: "(n :: int) AND 0xFF = n mod 256"
proof -
  have "(0xFF :: int) = mask 8" by (simp add: mask_eq_exp_minus_1)
  then show ?thesis by (simp only: flip: take_bit_eq_mask) (simp add: take_bit_eq_mod)
qed

lemma buildLen_hi: "256 \<le> n \<Longrightarrow> n \<le> 65535 \<Longrightarrow>
   uint (word_of_int (drop_bit 8 n) AND 0xFF :: byte) = n div 256"
  by (simp add: byte_and_FF drop_bit_eq_div uint_word_of_int)

lemma buildLen_lo: "uint (word_of_int (n AND 0xFF) :: byte) = n mod 256"
  by (simp add: int_and_FF uint_word_of_int)

lemma marker_cases:
  "(x :: byte) \<le> 0x7F \<or> x = 0x80 \<or> x = 0x81 \<or> x = 0x82 \<or> x > 0x82"
  by unat_arith

lemma marker_gt: "(x :: byte) > 0x82 \<Longrightarrow> \<not> x \<le> 0x7F \<and> x \<noteq> 0x81 \<and> x \<noteq> 0x82"
  by unat_arith

lemma parseTag_append:
  assumes "parseTag b = Ok t"
  shows "parseTag (t @ rest) = Ok t"
  using assms
  by (auto simp: parseTag_def NewOneByteTag_def NewTwoByteTag_def NewThreeByteTag_def
      nth_append split: if_splits)

lemma parseLength_buildLen:
  assumes "n \<le> 65535"
  shows "parseLength (buildLen (int n) @ rest) = Ok (n, length (buildLen (int n)))"
proof -
  consider "n = 0" | "1 \<le> n" "n \<le> 127" | "128 \<le> n" "n \<le> 255" | "256 \<le> n"
    by linarith
  then show ?thesis
  proof cases
    case 1
    then show ?thesis by (simp add: buildLen_def parseLength_def)
  next
    case 2
    then have "(word_of_int (int n) :: byte) \<le> 0x7F"
      by (simp add: word_le_nat_alt unat_of_nat)
    with 2 show ?thesis
      by (simp add: buildLen_def parseLength_def unat_of_nat)
  next
    case 3
    then show ?thesis
      by (simp add: buildLen_def parseLength_def unat_of_nat)
  next
    case 4
    have hi: "unat (word_of_int (drop_bit 8 (int n)) AND 0xFF :: byte) = n div 256"
      using buildLen_hi [of "int n"] 4 assms
      by (simp add: unat_eq_nat_uint zdiv_int)
    have lo: "unat (word_of_int (int n AND 0xFF) :: byte) = n mod 256"
      using buildLen_lo [of "int n"]
      by (simp add: unat_eq_nat_uint nat_mod_distrib)
    from 4 show ?thesis
      by (simp add: buildLen_def parseLength_def Uint16_pair hi lo)
  qed
qed

lemma BytesLength_eq_length_Bytes:
  "1 \<le> length (Tag ber) \<Longrightarrow> length (Tag ber) \<le> 3 \<Longrightarrow> BytesLength ber = length (Bytes ber)"
  by (auto simp: BytesLength_def Bytes_def Let_def min_def)

section \<open>Decoding an encoded node\<close>

lemma parseFirstBerTLV_Ok_shape:
  assumes "parseFirstBerTLV b = Ok (BerTLV tag v cs, n)"
  shows "parseTag b = Ok tag"
    and "length v \<le> 65535"
    and "v = [] \<Longrightarrow> cs = []"
    and "\<not> IsConstructed tag \<Longrightarrow> cs = []"
    and "v \<noteq> [] \<Longrightarrow> IsConstructed tag \<Longrightarrow> parseChildren tag v 0 [] = Ok cs"
proof -
  from assms obtain len lLen where
    tg: "parseTag b = Ok tag" and
    pl: "parseLength (drop (length tag) b) = Ok (len, lLen)" and
    v: "v = take len (drop (length tag + lLen) b)"
    by (auto simp: parseFirstBerTLV.simps [of b] Let_def
        split: result.splits if_splits prod.splits)
  show "parseTag b = Ok tag" by (rule tg)
  from parseLength_Ok(4) [OF pl] v show "length v \<le> 65535" by simp
  from assms tg pl show "v = [] \<Longrightarrow> cs = []"
    by (auto simp: parseFirstBerTLV.simps [of b] Let_def
        split: result.splits if_splits prod.splits)
  from assms tg pl show "\<not> IsConstructed tag \<Longrightarrow> cs = []"
    by (auto simp: parseFirstBerTLV.simps [of b] Let_def
        split: result.splits if_splits prod.splits)
  from assms tg pl show "v \<noteq> [] \<Longrightarrow> IsConstructed tag \<Longrightarrow> parseChildren tag v 0 [] = Ok cs"
    by (auto simp: parseFirstBerTLV.simps [of b] Let_def
        split: result.splits if_splits prod.splits)
qed

lemma Bytes_untruncated:
  assumes "1 \<le> length tag" and "length tag \<le> 3" and "length v \<le> 65535"
  shows "Bytes (BerTLV tag v cs) = tag @ buildLen (int (length v)) @ v"
  using assms by (auto simp: Bytes_def Let_def)

lemma buildLen_nonempty: "buildLen l \<noteq> []"
  by (simp add: buildLen_def)

lemma parseFirstBerTLV_unfold:
  assumes "parseTag b = Ok tag"
    and "parseLength (drop (length tag) b) = Ok (len, lLen)"
    and "length tag + lLen + len \<le> length b"
  shows "parseFirstBerTLV b =
      (let val = take len (drop (length tag + lLen) b)
       in if val = [] then Ok (BerTLV tag [] [], length tag + lLen)
          else if IsConstructed tag
            then (case parseChildren tag val 0 [] of
                    Panic \<Rightarrow> Panic
                  | Err e \<Rightarrow> Err e
                  | Ok cs \<Rightarrow> Ok (BerTLV tag val cs, length tag + lLen + len))
            else Ok (BerTLV tag val [], length tag + lLen + len))"
  using assms(3) by (subst parseFirstBerTLV.simps) (simp add: assms(1,2) Let_def)

lemma parseFirstBerTLV_reparse:
  assumes "parseFirstBerTLV b = Ok (t, n)"
  shows "parseFirstBerTLV (Bytes t @ rest) = Ok (t, length (Bytes t))"
proof -
  obtain tag v cs where t: "t = BerTLV tag v cs" by (cases t)
  note sh = parseFirstBerTLV_Ok_shape [OF assms [unfolded t]]
  note tl = parseTag_Ok(1,2) [OF sh(1)]
  define L where "L = buildLen (int (length v))"
  define b' where "b' = tag @ L @ v @ rest"
  have enc: "Bytes (BerTLV tag v cs) = tag @ L @ v"
    unfolding L_def using tl sh(2) by (rule Bytes_untruncated)
  have pt: "parseTag b' = Ok tag"
    unfolding b'_def using sh(1) by (rule parseTag_append)
  have pl: "parseLength (drop (length tag) b') = Ok (length v, length L)"
    unfolding b'_def L_def using parseLength_buildLen [OF sh(2), of "v @ rest"] by simp
  have bound: "length tag + length L + length v \<le> length b'"
    by (simp add: b'_def)
  have val: "take (length v) (drop (length tag + length L) b') = v"
    by (simp add: b'_def)
  note step = parseFirstBerTLV_unfold [OF pt pl bound, unfolded val Let_def]
  have "parseFirstBerTLV b' = Ok (BerTLV tag v cs, length tag + length L + length v)"
  proof (cases "v = []")
    case True
    with sh(3) have "cs = []" by simp
    with True show ?thesis
      unfolding step by simp
  next
    case False
    show ?thesis
    proof (cases "IsConstructed tag")
      case True
      with False sh(5) show ?thesis
        unfolding step by simp
    next
      case nc: False
      with sh(4) have "cs = []" by simp
      with nc False show ?thesis
        unfolding step by simp
    qed
  qed
  then show ?thesis
    unfolding t enc b'_def by simp
qed

lemma Parse_loop_Ok_produced:
  assumes "Parse_loop b i acc = Ok r"
  shows "\<exists>ts. r = acc @ ts \<and> (\<forall>t\<in>set ts. \<exists>b' n'. parseFirstBerTLV b' = Ok (t, n'))"
  using assms
proof (induction b i acc rule: Parse_loop.induct)
  case (1 b index res)
  show ?case
  proof (cases "index < length b")
    case False
    with "1.prems" have "r = res" by (simp add: Parse_loop.simps [of b index res])
    then show ?thesis by simp
  next
    case True
    with "1.prems" obtain t n where
      p: "parseFirstBerTLV (drop index b) = Ok (t, n)" and
      l: "Parse_loop b (index + n) (res @ [t]) = Ok r"
      by (auto simp: Parse_loop.simps [of b index res] split: result.splits prod.splits)
    from "1.IH" [OF True p refl l] obtain ts where
      "r = (res @ [t]) @ ts" and "\<forall>t\<in>set ts. \<exists>b' n'. parseFirstBerTLV b' = Ok (t, n')"
      by blast
    with p have "r = res @ (t # ts) \<and> (\<forall>t\<in>set (t # ts). \<exists>b' n'. parseFirstBerTLV b' = Ok (t, n'))"
      by auto
    then show ?thesis by blast
  qed
qed

lemma Bytes_nonempty: "Bytes t \<noteq> []"
  by (simp add: Bytes_def Let_def buildLen_nonempty split: prod.splits)

lemma Parse_loop_concat_Bytes:
  assumes "\<forall>t\<in>set ts. \<exists>b' n'. parseFirstBerTLV b' = Ok (t, n')"
  shows "Parse_loop (pre @ concat (map Bytes ts)) (length pre) acc = Ok (acc @ ts)"
  using assms
proof (induction ts arbitrary: pre acc)
  case Nil
  then show ?case by (simp add: Parse_loop.simps [of pre "length pre" acc])
next
  case (Cons t ts)
  then obtain b' n' where p: "parseFirstBerTLV b' = Ok (t, n')" by auto
  let ?rest = "concat (map Bytes ts)"
  have re: "parseFirstBerTLV (Bytes t @ ?rest) = Ok (t, length (Bytes t))"
    using p by (rule parseFirstBerTLV_reparse)
  have lt: "length pre < length (pre @ concat (map Bytes (t # ts)))"
    using Bytes_nonempty [of t] by simp
  have IH: "Parse_loop ((pre @ Bytes t) @ ?rest) (length (pre @ Bytes t)) (acc @ [t])
      = Ok ((acc @ [t]) @ ts)"
    using Cons.prems by (intro Cons.IH) simp
  show ?case
    using lt re IH
    by (subst Parse_loop.simps) simp
qed

lemma BerTLVs_Bytes_concat: "BerTLVs_Bytes ts = concat (map Bytes ts)"
proof -
  have "foldl (\<lambda>b tlv. b @ Bytes tlv) acc ts = acc @ concat (map Bytes ts)" for acc
    by (induction ts arbitrary: acc) simp_all
  then show ?thesis by (simp add: BerTLVs_Bytes_def)
qed

lemma parse_untruncated:
  "(\<forall>t n. parseFirstBerTLV b = Ok (t, n) \<longrightarrow> untruncated t)"
  "(\<forall>r. list_all untruncated cs \<longrightarrow> parseChildren tag val i cs = Ok r \<longrightarrow> list_all untruncated r)"
proof (induction b and tag val i cs rule: parseFirstBerTLV_parseChildren.induct)
  case (1 b)
  show ?case
  proof (intro allI impI)
    fix t n assume p: "parseFirstBerTLV b = Ok (t, n)"
    obtain tg v ks where t: "t = BerTLV tg v ks" by (cases t)
    note sh = parseFirstBerTLV_Ok_shape [OF p [unfolded t]]
    note tl = parseTag_Ok(1,2) [OF sh(1)]
    from p [unfolded t] obtain len lLen where
      pl: "parseLength (drop (length tg) b) = Ok (len, lLen)" and
      v: "v = take len (drop (length tg + lLen) b)" and
      bd: "\<not> int (length b) - 1 < int (length tg + lLen) + int len - 1"
      using sh(1)
      by (auto simp: parseFirstBerTLV.simps [of b] Let_def
          split: result.splits if_splits prod.splits)
    have "list_all untruncated ks"
    proof (cases "v \<noteq> [] \<and> IsConstructed tg")
      case True
      then have k: "parseChildren tg v 0 [] = Ok ks" using sh(5) by simp
      from True have nz: "length v \<noteq> 0" by simp
      from "1.IH" [OF sh(1) refl pl refl refl refl refl bd v nz refl] True k
      show ?thesis by simp
    next
      case False
      with sh(3,4) have "ks = []" by blast
      then show ?thesis by simp
    qed
    with tl sh(2) show "untruncated t" by (simp add: t)
  qed
next
  case (2 tag val valueIndex cs)
  show ?case
  proof (intro allI impI)
    fix r assume cs: "list_all untruncated cs" and p: "parseChildren tag val valueIndex cs = Ok r"
    show "list_all untruncated r"
    proof (cases "valueIndex < length val")
      case False
      with p have "r = cs" by (simp add: parseChildren.simps [of tag val valueIndex cs])
      with cs show ?thesis by simp
    next
      case True
      with p obtain c n where
        pc: "parseFirstBerTLV (drop valueIndex val) = Ok (c, n)" and
        l: "parseChildren tag val (valueIndex + n) (cs @ [c]) = Ok r"
        by (auto simp: parseChildren.simps [of tag val valueIndex cs]
            split: result.splits prod.splits)
      from "2.IH"(1) [OF True] pc have "untruncated c" by blast
      with cs have "list_all untruncated (cs @ [c])" by simp
      with "2.IH"(2) [OF True pc refl] l show ?thesis by blast
    qed
  qed
qed

section \<open>Length codec: claims\<close>

text \<open>
  Claim C3. \<^verbatim>\<open>buildLen\<close> maps 0 to the single byte 0x00; every \<open>n\<close> in 1..127 to
  the single byte \<open>n\<close>; every \<open>n\<close> in 128..255 to 0x81 followed by the byte \<open>n\<close>;
  every \<open>n\<close> in 256..65535 to 0x82 followed by the high and the low byte of \<open>n\<close>
  (big-endian). At the boundaries: 127 is [0x7F], 128 is [0x81, 0x80], 255 is
  [0x81, 0xFF], 256 is [0x82, 0x01, 0x00] and 65535 is [0x82, 0xFF, 0xFF].
\<close>

theorem buildLen_exact:
  "buildLen 0 = [0x00]
   \<and> (1 \<le> n \<and> n \<le> 127 \<longrightarrow> (\<exists>x. buildLen n = [x] \<and> uint x = n))
   \<and> (128 \<le> n \<and> n \<le> 255 \<longrightarrow> (\<exists>x. buildLen n = [0x81, x] \<and> uint x = n))
   \<and> (256 \<le> n \<and> n \<le> 65535 \<longrightarrow>
        (\<exists>hi lo. buildLen n = [0x82, hi, lo] \<and> uint hi = n div 256 \<and> uint lo = n mod 256))
   \<and> buildLen 127 = [0x7F]
   \<and> buildLen 128 = [0x81, 0x80]
   \<and> buildLen 255 = [0x81, 0xFF]
   \<and> buildLen 256 = [0x82, 0x01, 0x00]
   \<and> buildLen 65535 = [0x82, 0xFF, 0xFF]"
proof -
  have a: "buildLen 0 = [0x00]" by (simp add: buildLen_def)
  have b: "1 \<le> n \<and> n \<le> 127 \<longrightarrow> (\<exists>x. buildLen n = [x] \<and> uint x = n)"
    by (auto simp: buildLen_def uint_byte_of_int)
  have c: "128 \<le> n \<and> n \<le> 255 \<longrightarrow> (\<exists>x. buildLen n = [0x81, x] \<and> uint x = n)"
    by (auto simp: buildLen_def uint_byte_of_int)
  have d: "256 \<le> n \<and> n \<le> 65535 \<longrightarrow>
        (\<exists>hi lo. buildLen n = [0x82, hi, lo] \<and> uint hi = n div 256 \<and> uint lo = n mod 256)"
    using buildLen_hi [of n] buildLen_lo [of n] by (auto simp: buildLen_def)
  have e: "buildLen 127 = [0x7F]" "buildLen 128 = [0x81, 0x80]" "buildLen 255 = [0x81, 0xFF]"
    "buildLen 256 = [0x82, 0x01, 0x00]" "buildLen 65535 = [0x82, 0xFF, 0xFF]"
    by (simp_all add: buildLen_def drop_bit_eq_div int_and_FF)
  from a b c d e show ?thesis by blast
qed

theorem buildLen_exact_witness:
  "(\<exists>x. buildLen 5 = [x] \<and> uint x = 5)
   \<and> (\<exists>x. buildLen 200 = [0x81, x] \<and> uint x = 200)
   \<and> (\<exists>hi lo. buildLen 1000 = [0x82, hi, lo] \<and> uint hi = 3 \<and> uint lo = 232)"
  using buildLen_exact [of 5] buildLen_exact [of 200] buildLen_exact [of 1000] by simp

text \<open>
  Claim C4. \<^verbatim>\<open>parseLength\<close> returns an error exactly when the input is empty, the
  marker byte is 0x81 with no byte after it, the marker byte is 0x82 with fewer than
  two bytes after it, or the marker byte is 0x80 or greater than 0x82. It never panics,
  and every accepted input is of one of the three forms: a marker up to 0x7F (the value
  is the marker, one byte consumed), 0x81 (the value is the next byte, two bytes
  consumed), 0x82 (the value is the next two bytes read big-endian, three bytes consumed).
\<close>

theorem parseLength_errors:
  "((\<exists>e. parseLength b = Err e) \<longleftrightarrow>
      (b = []
       \<or> (b \<noteq> [] \<and> b ! 0 = 0x81 \<and> length b < 2)
       \<or> (b \<noteq> [] \<and> b ! 0 = 0x82 \<and> length b < 3)
       \<or> (b \<noteq> [] \<and> (b ! 0 = 0x80 \<or> b ! 0 > 0x82))))
   \<and> parseLength b \<noteq> Panic
   \<and> (\<forall>v n. parseLength b = Ok (v, n) \<longrightarrow>
        (b ! 0 \<le> 0x7F \<and> v = unat (b ! 0) \<and> n = 1)
        \<or> (b ! 0 = 0x81 \<and> v = unat (b ! 1) \<and> n = 2)
        \<or> (b ! 0 = 0x82 \<and> v = unat (b ! 1) * 256 + unat (b ! 2) \<and> n = 3))"
proof (intro conjI)
  show "(\<exists>e. parseLength b = Err e) \<longleftrightarrow>
      (b = []
       \<or> (b \<noteq> [] \<and> b ! 0 = 0x81 \<and> length b < 2)
       \<or> (b \<noteq> [] \<and> b ! 0 = 0x82 \<and> length b < 3)
       \<or> (b \<noteq> [] \<and> (b ! 0 = 0x80 \<or> b ! 0 > 0x82)))"
    using marker_cases [of "b ! 0"] marker_gt [of "b ! 0"]
    by (auto simp: parseLength_def)
  show "parseLength b \<noteq> Panic"
    by (simp add: parseLength_def)
  show "\<forall>v n. parseLength b = Ok (v, n) \<longrightarrow>
        (b ! 0 \<le> 0x7F \<and> v = unat (b ! 0) \<and> n = 1)
        \<or> (b ! 0 = 0x81 \<and> v = unat (b ! 1) \<and> n = 2)
        \<or> (b ! 0 = 0x82 \<and> v = unat (b ! 1) * 256 + unat (b ! 2) \<and> n = 3)"
  proof (intro allI impI)
    fix v n assume ok: "parseLength b = Ok (v, n)"
    have "3 \<le> length b \<Longrightarrow> take (3 - 1) (drop 1 b) = [b ! 1, b ! 2]"
      by (cases b; cases "tl b"; cases "tl (tl b)") auto
    then show "(b ! 0 \<le> 0x7F \<and> v = unat (b ! 0) \<and> n = 1)
        \<or> (b ! 0 = 0x81 \<and> v = unat (b ! 1) \<and> n = 2)
        \<or> (b ! 0 = 0x82 \<and> v = unat (b ! 1) * 256 + unat (b ! 2) \<and> n = 3)"
      using ok by (auto simp: parseLength_def Uint16_pair split: if_splits)
  qed
qed

theorem parseLength_errors_witness:
  "(\<exists>e. parseLength [0x82, 0x01] = Err e)
   \<and> parseLength [0x82, 0x01, 0x02] = Ok (258, 3)
   \<and> parseLength [0x81, 0x90] = Ok (144, 2)
   \<and> parseLength [0x05] = Ok (5, 1)"
  using parseLength_errors [of "[0x82, 0x01]"] parseLength_errors [of "[0x82, 0x01, 0x02]"]
  by (simp add: parseLength_def Uint16_pair)

section \<open>Encoder: claims\<close>

text \<open>
  Claim C5. For every node \<^verbatim>\<open>Bytes\<close> returns the tag bytes (a single zero byte for the
  empty tag, the first three bytes of a longer tag), then \<^verbatim>\<open>buildLen\<close> of the length
  of the value cut to its first 65535 bytes, then those value bytes; when the value is
  longer than 65535 bytes the length bytes are [0x82, 0xFF, 0xFF].
\<close>

theorem Bytes_truncation_policy:
  "Bytes ber =
     (if Tag ber = [] then [0x00] else take 3 (Tag ber))
     @ buildLen (int (length (take 65535 (Value ber))))
     @ take 65535 (Value ber)
   \<and> (length (Value ber) > 65535 \<longrightarrow>
        buildLen (int (length (take 65535 (Value ber)))) = [0x82, 0xFF, 0xFF])"
proof -
  have "buildLen 65535 = [0x82, 0xFF, 0xFF]"
    by (simp add: buildLen_def drop_bit_eq_div int_and_FF)
  then show ?thesis
    by (auto simp: Bytes_def Let_def min_def)
qed

theorem Bytes_truncation_policy_witness:
  "length (Value (BerTLV [0x50] (replicate 65536 0) [])) > 65535
   \<and> Bytes (BerTLV [0x50] (replicate 65536 0) []) = [0x50, 0x82, 0xFF, 0xFF] @ replicate 65535 0"
  using Bytes_truncation_policy [of "BerTLV [0x50] (replicate 65536 0) []"]
  by simp

text \<open>
  Claim C2. \<^verbatim>\<open>BytesLength\<close> is documented as the length of the byte representation
  that \<^verbatim>\<open>Bytes\<close> returns. It counts \<^verbatim>\<open>len(ber.Tag)\<close> as it is, while \<^verbatim>\<open>Bytes\<close>
  writes one zero byte for the empty tag and three bytes for a longer tag: for the node
  with empty tag and empty value \<^verbatim>\<open>BytesLength\<close> is 1 and \<^verbatim>\<open>Bytes\<close> returns the two
  bytes [0x00, 0x00]; for the four-byte tag 01 02 03 04 with empty value
  \<^verbatim>\<open>BytesLength\<close> is 5 and \<^verbatim>\<open>Bytes\<close> returns four bytes. The two agree for tags of
  one to three bytes (\<open>BytesLength_eq_length_Bytes\<close>).
\<close>

theorem BytesLength_empty_tag_mismatch:
  "BytesLength (BerTLV [] [] []) = 1 \<and> Bytes (BerTLV [] [] []) = [0x00, 0x00]
   \<and> BytesLength (BerTLV [] [] []) \<noteq> length (Bytes (BerTLV [] [] []))
   \<and> BytesLength (BerTLV [0x01, 0x02, 0x03, 0x04] [] []) = 5
   \<and> Bytes (BerTLV [0x01, 0x02, 0x03, 0x04] [] []) = [0x01, 0x02, 0x03, 0x00]"
  by (simp add: BytesLength_def Bytes_def buildLen_def)

text \<open>
  Claim C9. \<^verbatim>\<open>Bytes\<close> never reads the children: two nodes with equal tag and equal
  value have the same encoding, whatever their children are.
\<close>

theorem Bytes_ignores_children:
  "Tag x = Tag y \<Longrightarrow> Value x = Value y \<Longrightarrow> Bytes x = Bytes y"
  by (simp add: Bytes_def Let_def)

theorem Bytes_ignores_children_witness:
  "Tag (BerTLV [0x71] [0x01, 0x02] []) = Tag (BerTLV [0x71] [0x01, 0x02] [BerTLV [0x05] [0x09] []])
   \<and> Value (BerTLV [0x71] [0x01, 0x02] []) = Value (BerTLV [0x71] [0x01, 0x02] [BerTLV [0x05] [0x09] []])
   \<and> Bytes (BerTLV [0x71] [0x01, 0x02] []) = Bytes (BerTLV [0x71] [0x01, 0x02] [BerTLV [0x05] [0x09] []])"
  using Bytes_ignores_children [of "BerTLV [0x71] [0x01, 0x02] []" "BerTLV [0x71] [0x01, 0x02] [BerTLV [0x05] [0x09] []]"]
  by simp

section \<open>Decoder and builder: claims\<close>

text \<open>
  Claim C10. \<^verbatim>\<open>IsConstructed\<close> of the empty tag is false (the length guard comes before
  the read of the first byte), and so \<^verbatim>\<open>NewBerTLV\<close> with the empty tag and any value
  returns the primitive node with that value and no children.
\<close>

theorem IsConstructed_empty_tag:
  "IsConstructed [] = False \<and> NewBerTLV [] v = Ok (BerTLV [] v [])"
  by (simp add: IsConstructed_def NewBerTLV_def)

text \<open>
  Claim C8. \<^verbatim>\<open>Parse\<close> of the three bytes 71 01 01 returns an error and no tree: the outer
  tag 0x71 and its length 1 are read, decoding the one-byte value fails in
  \<^verbatim>\<open>parseLength\<close> because no length byte follows the child tag 0x01, and that error
  is wrapped with the parent tag 0x71 (invalid child object) and then with the start
  index 0.
\<close>

theorem Parse_invalid_child:
  "Parse [0x71, 0x01, 0x01] =
     Err (InvalidTLVStartingAtIndex 0
           (InvalidChildObject [0x71] (InvalidLengthEncoding [0x01] MissingLength)))
   \<and> parseFirstBerTLV [0x01] = Err (InvalidLengthEncoding [0x01] MissingLength)
   \<and> parseTag [0x71, 0x01, 0x01] = Ok [0x71]
   \<and> parseLength [0x01, 0x01] = Ok (1, 1)
   \<and> parseLength [] = Err MissingLength"
  by code_simp

text \<open>
  Claim C7. \<^verbatim>\<open>BuildBerTLVs\<close> is \<^verbatim>\<open>Parse\<close> applied to the bytes of the builder. Adding
  tag 0x0A with value [0xFF] to the empty builder with \<^verbatim>\<open>AddBytes\<close> accumulates the bytes
  0A 01 FF, so building gives the same result as \<^verbatim>\<open>Parse\<close> of these bytes: the single
  primitive node with tag 0x0A and value [0xFF].
\<close>

theorem Builder_equals_Parse:
  "BuildBerTLVs bu = Parse (bytes bu)
   \<and> bytes (AddBytes \<lparr>bytes = []\<rparr> [0x0A] [0xFF]) = [0x0A, 0x01, 0xFF]
   \<and> BuildBerTLVs (AddBytes \<lparr>bytes = []\<rparr> [0x0A] [0xFF]) = Parse [0x0A, 0x01, 0xFF]
   \<and> Parse [0x0A, 0x01, 0xFF] = Ok [BerTLV [0x0A] [0xFF] []]"
proof -
  have a: "bytes (AddBytes \<lparr>bytes = []\<rparr> [0x0A] [0xFF]) = [0x0A, 0x01, 0xFF]"
    by (simp add: AddBytes_def prependLengthBytes_def buildLen_def)
  have b: "Parse [0x0A, 0x01, 0xFF] = Ok [BerTLV [0x0A] [0xFF] []]"
    by code_simp
  show ?thesis
    by (simp add: BuildBerTLVs_def a b)
qed

text \<open>
  Claim C6. When the first tag of the input is constructed and the length after it is
  declared as 0, \<^verbatim>\<open>parseFirstBerTLV\<close> succeeds with the node that has this tag, an
  empty value and no children, consuming the tag and length bytes only; \<^verbatim>\<open>Parse\<close>
  goes on after these bytes with that node as its first result, and returns just that
  node when the input ends there.
\<close>

theorem constructed_empty_value:
  assumes "parseTag b = Ok tag" and "IsConstructed tag"
    and "parseLength (drop (length tag) b) = Ok (0, lLen)"
  shows "parseFirstBerTLV b = Ok (BerTLV tag [] [], length tag + lLen)
    \<and> Parse b = Parse_loop b (length tag + lLen) [BerTLV tag [] []]
    \<and> (length b = length tag + lLen \<longrightarrow> Parse b = Ok [BerTLV tag [] []])"
proof -
  have bound: "length tag + lLen + 0 \<le> length b"
    using parseTag_Ok(3) [OF assms(1)] parseLength_Ok(3) [OF assms(3)] by simp
  have first: "parseFirstBerTLV b = Ok (BerTLV tag [] [], length tag + lLen)"
    using parseFirstBerTLV_unfold [OF assms(1) assms(3) bound] by simp
  have ne: "0 < length b"
    using parseTag_Ok(1,3) [OF assms(1)] by (cases b) auto
  have loop: "Parse b = Parse_loop b (length tag + lLen) [BerTLV tag [] []]"
    using ne first by (simp add: Parse_def Parse_loop.simps [of b 0 "[]"])
  have "Parse_loop b (length b) [BerTLV tag [] []] = Ok [BerTLV tag [] []]"
    by (simp add: Parse_loop.simps [of b "length b"])
  then have "length b = length tag + lLen \<longrightarrow> Parse b = Ok [BerTLV tag [] []]"
    using loop by auto
  with first loop show ?thesis by blast
qed

theorem constructed_empty_value_witness:
  "parseTag [0x71, 0x00] = Ok [0x71] \<and> IsConstructed [0x71]
   \<and> parseLength (drop (length [0x71 :: byte]) [0x71, 0x00]) = Ok (0, 1)
   \<and> parseFirstBerTLV [0x71, 0x00] = Ok (BerTLV [0x71] [] [], 2)
   \<and> Parse [0x71, 0x00] = Ok [BerTLV [0x71] [] []]"
proof -
  have a: "parseTag [0x71, 0x00] = Ok [0x71]"
    by (simp add: parseTag_def NewOneByteTag_def)
  have b: "IsConstructed [0x71]"
    by (simp add: IsConstructed_def)
  have c: "parseLength (drop (length [0x71 :: byte]) [0x71, 0x00]) = Ok (0, 1)"
    by (simp add: parseLength_def)
  have d: "length [0x71 :: byte, 0x00] = length [0x71 :: byte] + 1"
    by simp
  from constructed_empty_value [OF a b c] d
  have "parseFirstBerTLV [0x71, 0x00] = Ok (BerTLV [0x71] [] [], length [0x71 :: byte] + 1)"
    and "Parse [0x71, 0x00] = Ok [BerTLV [0x71] [] []]"
    by blast+
  with a b c show ?thesis by simp
qed

section \<open>Round trip\<close>

text \<open>
  Claim C1. For every tree \<open>T\<close> that \<^verbatim>\<open>Parse\<close> returns, \<^verbatim>\<open>Parse\<close> of the bytes that
  \<^verbatim>\<open>BerTLVs.Bytes\<close> writes for \<open>T\<close> succeeds and returns \<open>T\<close> again; and no
  truncation is triggered, since every node of \<open>T\<close>, at every depth, has a tag of one to
  three bytes and a value of at most 65535 bytes. The bytes written need not be the
  bytes that were parsed (a length below 128 may come in as 0x81 and one byte); the tree
  is the same. In a tree returned by \<^verbatim>\<open>Parse\<close> every empty slice is nil, so equality
  of the lists of the model is structural equality of the Go values.
\<close>

theorem Parse_Bytes_roundtrip:
  assumes "Parse b = Ok T"
  shows "Parse (BerTLVs_Bytes T) = Ok T \<and> list_all untruncated T"
proof -
  from assms have ne: "b \<noteq> []" and loop: "Parse_loop b 0 [] = Ok T"
    by (auto simp: Parse_def split: if_splits)
  from Parse_loop_Ok_produced [OF loop]
  have prod: "\<forall>t\<in>set T. \<exists>b' n'. parseFirstBerTLV b' = Ok (t, n')" by simp
  from ne loop have "T \<noteq> []"
    by (auto simp: Parse_loop.simps [of b 0 "[]"] split: result.splits prod.splits
        dest!: Parse_loop_Ok_produced)
  then obtain t ts where T: "T = t # ts" by (cases T) auto
  have "BerTLVs_Bytes T \<noteq> []"
    using Bytes_nonempty [of t] by (simp add: BerTLVs_Bytes_concat T)
  moreover have "Parse_loop (BerTLVs_Bytes T) 0 [] = Ok T"
    using Parse_loop_concat_Bytes [OF prod, of "[]" "[]"] by (simp add: BerTLVs_Bytes_concat)
  ultimately have rt: "Parse (BerTLVs_Bytes T) = Ok T"
    by (simp add: Parse_def)
  have "untruncated t" if "t \<in> set T" for t
  proof -
    from prod that obtain b' n' where "parseFirstBerTLV b' = Ok (t, n')" by blast
    with parse_untruncated(1) [of b'] show ?thesis by blast
  qed
  then have "list_all untruncated T" by (simp add: list_all_iff)
  with rt show ?thesis by blast
qed

theorem Parse_Bytes_roundtrip_witness:
  "Parse [0x71, 0x81, 0x05, 0x90, 0x03, 0x01, 0x02, 0x03, 0xDF, 0x20, 0x00]
     = Ok [BerTLV [0x71] [0x90, 0x03, 0x01, 0x02, 0x03] [BerTLV [0x90] [0x01, 0x02, 0x03] []],
           BerTLV [0xDF, 0x20] [] []]
   \<and> BerTLVs_Bytes
        [BerTLV [0x71] [0x90, 0x03, 0x01, 0x02, 0x03] [BerTLV [0x90] [0x01, 0x02, 0x03] []],
         BerTLV [0xDF, 0x20] [] []]
     = [0x71, 0x05, 0x90, 0x03, 0x01, 0x02, 0x03, 0xDF, 0x20, 0x00]
   \<and> Parse [0x71, 0x05, 0x90, 0x03, 0x01, 0x02, 0x03, 0xDF, 0x20, 0x00]
     = Ok [BerTLV [0x71] [0x90, 0x03, 0x01, 0x02, 0x03] [BerTLV [0x90] [0x01, 0x02, 0x03] []],
           BerTLV [0xDF, 0x20] [] []]"
proof -
  have p: "Parse [0x71, 0x81, 0x05, 0x90, 0x03, 0x01, 0x02, 0x03, 0xDF, 0x20, 0x00]
     = Ok [BerTLV [0x71] [0x90, 0x03, 0x01, 0x02, 0x03] [BerTLV [0x90] [0x01, 0x02, 0x03] []],
           BerTLV [0xDF, 0x20] [] []]"
    by code_simp
  have e: "BerTLVs_Bytes
        [BerTLV [0x71] [0x90, 0x03, 0x01, 0x02, 0x03] [BerTLV [0x90] [0x01, 0x02, 0x03] []],
         BerTLV [0xDF, 0x20] [] []]
     = [0x71, 0x05, 0x90, 0x03, 0x01, 0x02, 0x03, 0xDF, 0x20, 0x00]"
    by (simp add: BerTLVs_Bytes_def Bytes_def buildLen_def)
  from Parse_Bytes_roundtrip [OF p] p e show ?thesis by simp
qed

end
